theory Spec2Isabelle
  imports Complex_Main
begin

section \<open>Configuration\<close>

text \<open>
  The constants of \<^verbatim>\<open>CONFIG\<close> in \<^verbatim>\<open>src/handlers/channelHandlers.js\<close> that the
  pool, the semaphore and the executor read. Times are milliseconds.
\<close>

definition POOL_SIZE :: nat where
  "POOL_SIZE = 5"

definition MAX_CONCURRENT_REQUESTS :: nat where
  "MAX_CONCURRENT_REQUESTS = 20"

definition MAX_REQUESTS_PER_INSTANCE :: int where
  "MAX_REQUESTS_PER_INSTANCE = 4"

definition INSTANCE_MAX_REQUESTS :: int where
  "INSTANCE_MAX_REQUESTS = 100"

definition INSTANCE_MAX_AGE :: int where
  "INSTANCE_MAX_AGE = 1000 * 60 * 15"

definition MAX_RETRIES :: nat where
  "MAX_RETRIES = 2"

definition RETRY_DELAY :: nat where
  "RETRY_DELAY = 500"

section \<open>RequestSemaphore\<close>

text \<open>
  The class has three fields. A waiter is the \<^verbatim>\<open>resolve\<close> callback of the promise a
  blocked \<^verbatim>\<open>acquire()\<close> returned; it is identified here by a number. The capacity is
  given once, to the constructor; the counter is an integer so that the clamp
  \<^verbatim>\<open>Math.max(0, currentCount - 1)\<close> of \<^verbatim>\<open>release\<close> is written out.
\<close>

record RequestSemaphore =
  maxConcurrent :: nat
  currentCount :: int
  waitingQueue :: "nat list"

definition sem_constructor :: "nat \<Rightarrow> RequestSemaphore" where
  "sem_constructor m = \<lparr>maxConcurrent = m, currentCount = 0, waitingQueue = []\<rparr>"

text \<open>
  \<^verbatim>\<open>acquire()\<close> runs to its end without suspending: either it takes a slot and its
  promise is resolved (first component \<open>True\<close>), or it appends its waiter to the queue
  and its promise stays pending (\<open>False\<close>).
\<close>

definition sem_acquire :: "nat \<Rightarrow> RequestSemaphore \<Rightarrow> bool \<times> RequestSemaphore" where
  "sem_acquire w s =
     (if currentCount s < int (maxConcurrent s)
      then (True, s\<lparr>currentCount := currentCount s + 1\<rparr>)
      else (False, s\<lparr>waitingQueue := waitingQueue s @ [w]\<rparr>))"

text \<open>
  \<^verbatim>\<open>release()\<close> hands the slot to the oldest waiter (\<^verbatim>\<open>shift\<close>, then the call of
  \<^verbatim>\<open>next\<close>, which leaves the counter alone) or, with nobody waiting, gives the slot
  back. The first component is the waiter that was woken.
\<close>

definition sem_release :: "RequestSemaphore \<Rightarrow> nat option \<times> RequestSemaphore" where
  "sem_release s =
     (case waitingQueue s of
        next # rest \<Rightarrow> (Some next, s\<lparr>waitingQueue := rest\<rparr>)
      | [] \<Rightarrow> (None, s\<lparr>currentCount := max 0 (currentCount s - 1)\<rparr>))"

text \<open>
  Both methods are atomic with respect to other tasks (neither contains an
  \<^verbatim>\<open>await\<close>), so an interleaving of callers is a list of calls.
\<close>

datatype sem_call = Acquire nat | Release

fun sem_step :: "sem_call \<Rightarrow> RequestSemaphore \<Rightarrow> RequestSemaphore" where
  "sem_step (Acquire w) s = snd (sem_acquire w s)"
| "sem_step Release s = snd (sem_release s)"

definition sem_run :: "sem_call list \<Rightarrow> RequestSemaphore \<Rightarrow> RequestSemaphore" where
  "sem_run calls s = fold sem_step calls s"

definition sem_inv :: "RequestSemaphore \<Rightarrow> bool" where
  "sem_inv s \<longleftrightarrow>
     0 \<le> currentCount s \<and> currentCount s \<le> int (maxConcurrent s) \<and>
     (waitingQueue s \<noteq> [] \<longrightarrow> currentCount s = int (maxConcurrent s))"

section \<open>YouTubeInstancePool: statistics and release\<close>

text \<open>
  An instance identifier is the string \<^verbatim>\<open>yt_<time>_<random>\<close>; only its identity
  matters, so it is a number here. The statistics object of \<^verbatim>\<open>createInstance\<close>:
\<close>

type_synonym inst_id = nat

record instance_stats =
  createdAt :: int
  requestCount :: int
  activeRequests :: int
  errors :: int
  lastUsed :: int

definition new_stats :: "int \<Rightarrow> instance_stats" where
  "new_stats now =
     \<lparr>createdAt = now, requestCount = 0, activeRequests = 0, errors = 0, lastUsed = now\<rparr>"

text \<open>
  The fields of the pool: the array \<^verbatim>\<open>instances\<close> (each element is
  \<^verbatim>\<open>{id, instance}\<close>; the client object itself is opaque), the map
  \<^verbatim>\<open>instanceStats\<close>, and \<^verbatim>\<open>initPromise\<close>, of which only whether it is set matters.
\<close>

record pool =
  instances :: "inst_id list"
  instanceStats :: "inst_id \<rightharpoonup> instance_stats"
  initPromise :: bool

definition pool_constructor :: pool where
  "pool_constructor = \<lparr>instances = [], instanceStats = Map.empty, initPromise = False\<rparr>"

definition release :: "inst_id \<Rightarrow> bool \<Rightarrow> pool \<Rightarrow> pool" where
  "release instanceId hadError p =
     (case instanceStats p instanceId of
        None \<Rightarrow> p
      | Some stats \<Rightarrow>
          p\<lparr>instanceStats := (instanceStats p)(instanceId \<mapsto>
              stats\<lparr>activeRequests := max 0 (activeRequests stats - 1),
                    requestCount := requestCount stats + 1,
                    errors := (if hadError then errors stats + 1 else errors stats)\<rparr>)\<rparr>)"

definition release_all :: "(inst_id \<times> bool) list \<Rightarrow> pool \<Rightarrow> pool" where
  "release_all calls p = fold (\<lambda>(i, e). release i e) calls p"

section \<open>executeWithInstance\<close>

text \<open>
  What one invocation does depends on the operation, on the pool and on the other tasks.
  These are the environment of the model, given per loop iteration (the value of
  \<^verbatim>\<open>attempts\<close> identifies the iteration, since it grows by one in each iteration
  that does not leave the loop):
  \<^item> \<open>acq k\<close>: how \<^verbatim>\<open>await instancePool.acquire()\<close> ends in iteration \<open>k\<close>: with a
    handle, with an exception (the empty pool), or never (the poll of
    \<^verbatim>\<open>getInstance\<close> has no bound);
  \<^item> \<open>operation k inst\<close>: which promise of the \<^verbatim>\<open>Promise.race\<close> settles first in
    iteration \<open>k\<close>: the operation's, fulfilled or rejected, or the timer's, which rejects
    with \<^verbatim>\<open>Error('Request timeout')\<close> after \<^verbatim>\<open>timeout\<close> milliseconds.
  The value thrown when the loop never ran is \<^verbatim>\<open>lastError\<close> still
  \<^verbatim>\<open>undefined\<close>.
\<close>

datatype js_error = Undefined | Error string

datatype 'r race = Fulfils 'r | Rejects js_error | TimerFires

datatype acquired = Acquired inst_id | AcquireThrows js_error | AcquireNeverSettles

fun promise_race :: "'r race \<Rightarrow> js_error + 'r" where
  "promise_race (Fulfils result) = Inr result"
| "promise_race (Rejects e) = Inl e"
| "promise_race TimerFires = Inl (Error ''Request timeout'')"

text \<open>
  The calls an invocation makes on the shared objects, in order, and how it ends.
  \<open>SemAcquire\<close> is recorded when \<^verbatim>\<open>await requestSemaphore.acquire()\<close> returns,
  \<open>Wait d\<close> is the back-off \<^verbatim>\<open>setTimeout\<close> of \<open>d\<close> milliseconds.
\<close>

datatype event =
  SemAcquire | PoolAcquire inst_id | Operation inst_id | PoolRelease inst_id bool
  | Wait nat | SemRelease

datatype 'r completion = Returns 'r | Throws js_error | Pending

text \<open>
  The \<^verbatim>\<open>options\<close> argument; an absent field takes its default. Every caller in the
  repository passes no options, so \<^verbatim>\<open>retries\<close> is a count. The timeout is the delay
  of the timer in the race; which promise wins is part of the environment.
\<close>

record options =
  opt_retries :: "nat option"
  opt_timeout :: "nat option"

definition REQUEST_TIMEOUT :: nat where
  "REQUEST_TIMEOUT = 25000"

text \<open>
  The \<^verbatim>\<open>while (attempts <= retries)\<close> loop with the statement after it. An exception
  of \<^verbatim>\<open>instancePool.acquire()\<close> is raised outside the inner \<^verbatim>\<open>try\<close> and leaves the
  loop at once.
\<close>

function attempt_loop ::
  "nat \<Rightarrow> (nat \<Rightarrow> acquired) \<Rightarrow> (nat \<Rightarrow> inst_id \<Rightarrow> 'r race) \<Rightarrow> nat \<Rightarrow> js_error
     \<Rightarrow> event list \<times> 'r completion" where
  "attempt_loop retries acq operation attempts lastError =
     (if attempts \<le> retries then
        (case acq attempts of
           AcquireNeverSettles \<Rightarrow> ([], Pending)
         | AcquireThrows e \<Rightarrow> ([], Throws e)
         | Acquired inst \<Rightarrow>
            (case promise_race (operation attempts inst) of
               Inr result \<Rightarrow>
                 ([PoolAcquire inst, Operation inst, PoolRelease inst False], Returns result)
             | Inl error \<Rightarrow>
                 (case attempt_loop retries acq operation (attempts + 1) error of
                    (trace, c) \<Rightarrow>
                      ([PoolAcquire inst, Operation inst, PoolRelease inst True]
                       @ (if attempts + 1 \<le> retries then [Wait (RETRY_DELAY * (attempts + 1))] else [])
                       @ trace, c))))
      else ([], Throws lastError))"
  by pat_completeness auto
termination
  by (relation "measure (\<lambda>(retries, acq, operation, attempts, lastError). retries + 1 - attempts)") auto

declare attempt_loop.simps [simp del]

text \<open>
  The whole function. \<open>slot\<close> says whether the promise of
  \<^verbatim>\<open>requestSemaphore.acquire()\<close> is ever resolved; if not, the invocation stays
  suspended before the \<^verbatim>\<open>try\<close>. The \<^verbatim>\<open>finally\<close> block runs when the \<^verbatim>\<open>try\<close> block
  is left, by \<^verbatim>\<open>return\<close> or by an exception, and not while an \<^verbatim>\<open>await\<close> in it is
  still pending.
\<close>

definition option_retries :: "options \<Rightarrow> nat" where
  "option_retries opts = (case opt_retries opts of None \<Rightarrow> MAX_RETRIES | Some r \<Rightarrow> r)"

definition option_timeout :: "options \<Rightarrow> nat" where
  "option_timeout opts = (case opt_timeout opts of None \<Rightarrow> REQUEST_TIMEOUT | Some t \<Rightarrow> t)"

definition executeWithInstance ::
  "(nat \<Rightarrow> inst_id \<Rightarrow> 'r race) \<Rightarrow> options \<Rightarrow> bool \<Rightarrow> (nat \<Rightarrow> acquired)
     \<Rightarrow> event list \<times> 'r completion" where
  "executeWithInstance operation opts slot acq =
     (let retries = option_retries opts
      in if \<not> slot then ([], Pending)
         else (case attempt_loop retries acq operation 0 Undefined of
                 (trace, Pending) \<Rightarrow> (SemAcquire # trace, Pending)
               | (trace, c) \<Rightarrow> (SemAcquire # trace @ [SemRelease], c)))"





section \<open>YouTubeInstancePool: selection, acquisition, refresh\<close>

text \<open>
  One pass of the \<^verbatim>\<open>for\<close> loop of \<^verbatim>\<open>getInstance\<close>. The three local variables are
  \<^verbatim>\<open>bestInstance\<close>, \<^verbatim>\<open>lowestLoad\<close> (\<open>None\<close> is its initial \<^verbatim>\<open>Infinity\<close>) and the
  calls \<^verbatim>\<open>this.refreshInstance(inst.id)\<close> the loop has fired. The load score
  \<^verbatim>\<open>activeRequests + errors * 0.5\<close> is an exact rational (the counters are small
  integers, so the double arithmetic of the source is exact as well).
\<close>

definition needsRefresh :: "int \<Rightarrow> instance_stats \<Rightarrow> bool" where
  "needsRefresh now stats \<longleftrightarrow>
     requestCount stats \<ge> INSTANCE_MAX_REQUESTS \<or> now - createdAt stats \<ge> INSTANCE_MAX_AGE"

definition loadScore :: "instance_stats \<Rightarrow> rat" where
  "loadScore stats = of_int (activeRequests stats) + of_int (errors stats) * 0.5"

record selection =
  bestInstance :: "inst_id option"
  lowestLoad :: "rat option"
  refreshCalls :: "inst_id list"

definition select_step ::
  "int \<Rightarrow> (inst_id \<rightharpoonup> instance_stats) \<Rightarrow> inst_id \<Rightarrow> selection \<Rightarrow> selection" where
  "select_step now statsMap inst sel =
     (case statsMap inst of
        None \<Rightarrow> sel
      | Some stats \<Rightarrow>
          if activeRequests stats \<ge> MAX_REQUESTS_PER_INSTANCE then sel
          else if needsRefresh now stats \<and> activeRequests stats = 0
            then sel\<lparr>refreshCalls := refreshCalls sel @ [inst]\<rparr>
          else if (case lowestLoad sel of None \<Rightarrow> True | Some l \<Rightarrow> loadScore stats < l)
            then sel\<lparr>lowestLoad := Some (loadScore stats), bestInstance := Some inst\<rparr>
          else sel)"

definition select_instance :: "int \<Rightarrow> pool \<Rightarrow> selection" where
  "select_instance now p =
     fold (select_step now (instanceStats p)) (instances p)
       \<lparr>bestInstance = None, lowestLoad = None, refreshCalls = []\<rparr>"

text \<open>
  \<^verbatim>\<open>getInstance\<close> itself: after \<^verbatim>\<open>await this.initialize()\<close> it throws on an empty
  pool, returns the best instance if there is one, and otherwise sleeps 100 ms and calls
  itself. Between two rounds other tasks run, so the time and the pool that round \<open>k\<close>
  sees are given by the environment \<open>env k\<close>. Nothing bounds the recursion, so the
  function is partial: \<open>None\<close> is the call that never returns.
\<close>

partial_function (option) getInstance ::
  "(nat \<Rightarrow> int \<times> pool) \<Rightarrow> nat \<Rightarrow> (js_error + inst_id) option" where
  "getInstance env k =
     (if instances (snd (env k)) = []
      then Some (Inl (Error ''No YouTube instances available''))
      else (case bestInstance (select_instance (fst (env k)) (snd (env k))) of
              Some inst \<Rightarrow> Some (Inr inst)
            | None \<Rightarrow> getInstance env (k + 1)))"

text \<open>A round that finds instances but selects none.\<close>

definition no_candidate :: "(nat \<Rightarrow> int \<times> pool) \<Rightarrow> nat \<Rightarrow> bool" where
  "no_candidate env j \<longleftrightarrow>
     instances (snd (env j)) \<noteq> [] \<and>
     bestInstance (select_instance (fst (env j)) (snd (env j))) = None"

text \<open>
  \<^verbatim>\<open>acquire\<close> is \<^verbatim>\<open>const inst = await this.getInstance()\<close>, which rethrows, followed
  by the update of the statistics. The \<^verbatim>\<open>await\<close> is a suspension point: the update
  runs in a later microtask than the selection.
\<close>

definition acquire_resume :: "int \<Rightarrow> inst_id \<Rightarrow> pool \<Rightarrow> pool" where
  "acquire_resume now inst p =
     (case instanceStats p inst of
        None \<Rightarrow> p
      | Some stats \<Rightarrow>
          p\<lparr>instanceStats := (instanceStats p)(inst \<mapsto>
              stats\<lparr>activeRequests := activeRequests stats + 1, lastUsed := now\<rparr>)\<rparr>)"

text \<open>
  \<^verbatim>\<open>initialize\<close>: a second call returns the stored promise; the first one starts
  \<^verbatim>\<open>POOL_SIZE\<close> creations, of which \<open>created i\<close> is the identifier of the \<open>i\<close>-th, or
  \<open>None\<close> if it failed. \<^verbatim>\<open>createInstance\<close> stores fresh statistics under the new
  identifier; the \<^verbatim>\<open>then\<close> callback pushes the instance.
\<close>

definition initialize :: "int \<Rightarrow> (nat \<Rightarrow> inst_id option) \<Rightarrow> pool \<Rightarrow> pool" where
  "initialize now created p =
     (if initPromise p then p
      else if length (instances p) \<ge> POOL_SIZE then p
      else (let ids = List.map_filter created [0..<POOL_SIZE]
            in p\<lparr>initPromise := True,
                 instances := instances p @ ids,
                 instanceStats := fold (\<lambda>i m. m(i \<mapsto> new_stats now)) ids (instanceStats p)\<rparr>))"

text \<open>
  \<^verbatim>\<open>refreshInstance\<close> computes \<^verbatim>\<open>index\<close> with \<^verbatim>\<open>findIndex\<close>, awaits
  \<^verbatim>\<open>createInstance()\<close> and then, if that succeeded, deletes the old statistics and
  overwrites \<^verbatim>\<open>instances[index]\<close>. The array never shrinks, so the index is still
  inside it.
\<close>

fun find_index :: "inst_id \<Rightarrow> inst_id list \<Rightarrow> nat option" where
  "find_index i [] = None"
| "find_index i (x # xs) = (if x = i then Some 0 else map_option Suc (find_index i xs))"

definition refresh_finish :: "int \<Rightarrow> nat \<Rightarrow> inst_id \<Rightarrow> inst_id \<Rightarrow> pool \<Rightarrow> pool" where
  "refresh_finish now index instanceId newInst p =
     p\<lparr>instanceStats := ((instanceStats p)(newInst \<mapsto> new_stats now))(instanceId := None),
       instances := (instances p)[index := newInst]\<rparr>"

text \<open>
  The pool together with the tasks suspended inside its methods: \<open>selected\<close> holds the
  callers of \<^verbatim>\<open>acquire\<close> whose \<^verbatim>\<open>getInstance\<close> has returned an instance and whose
  continuation has not run yet; \<open>refreshing\<close> holds the calls of
  \<^verbatim>\<open>refreshInstance\<close> that wait for \<^verbatim>\<open>createInstance\<close>, with their index and old
  identifier. An action is one stretch of code between two suspension points, which the
  single-threaded runtime executes atomically; an interleaving is a list of actions. A
  selection round on an uninitialised pool is suspended in \<^verbatim>\<open>initialize\<close>, and one on
  an empty pool throws: neither changes the state.
\<close>

record pool_tasks =
  the_pool :: pool
  selected :: "(nat \<times> inst_id) list"
  refreshing :: "(nat \<times> inst_id) list"

datatype pool_action =
    Initialize int "nat \<Rightarrow> inst_id option"
  | GetInstance nat int
  | AcquireResume nat int
  | ReleaseCall inst_id bool
  | RefreshCreated nat inst_id int
  | RefreshFailed nat

definition drop_nth :: "nat \<Rightarrow> 'a list \<Rightarrow> 'a list" where
  "drop_nth k xs = take k xs @ drop (Suc k) xs"

fun pool_step :: "pool_action \<Rightarrow> pool_tasks \<Rightarrow> pool_tasks" where
  "pool_step (Initialize now created) s = s\<lparr>the_pool := initialize now created (the_pool s)\<rparr>"
| "pool_step (GetInstance task now) s =
     (let p = the_pool s in
      if \<not> initPromise p \<or> instances p = [] then s
      else (let sel = select_instance now p in
            s\<lparr>selected := (case bestInstance sel of
                               None \<Rightarrow> selected s
                             | Some inst \<Rightarrow> selected s @ [(task, inst)]),
              refreshing := refreshing s @
                 List.map_filter (\<lambda>i. map_option (\<lambda>index. (index, i)) (find_index i (instances p)))
                   (refreshCalls sel)\<rparr>))"
| "pool_step (AcquireResume task now) s =
     (case map_of (selected s) task of
        None \<Rightarrow> s
      | Some inst \<Rightarrow>
          s\<lparr>the_pool := acquire_resume now inst (the_pool s),
            selected := filter (\<lambda>(t, i). t \<noteq> task) (selected s)\<rparr>)"
| "pool_step (ReleaseCall instanceId hadError) s =
     s\<lparr>the_pool := release instanceId hadError (the_pool s)\<rparr>"
| "pool_step (RefreshCreated k newInst now) s =
     (if k < length (refreshing s)
      then (case refreshing s ! k of (index, instanceId) \<Rightarrow>
              s\<lparr>the_pool := refresh_finish now index instanceId newInst (the_pool s),
                refreshing := drop_nth k (refreshing s)\<rparr>)
      else s)"
| "pool_step (RefreshFailed k) s = s\<lparr>refreshing := drop_nth k (refreshing s)\<rparr>"

definition pool_run :: "pool_action list \<Rightarrow> pool_tasks \<Rightarrow> pool_tasks" where
  "pool_run actions s = fold pool_step actions s"

definition pool_start :: pool_tasks where
  "pool_start = \<lparr>the_pool = pool_constructor, selected = [], refreshing = []\<rparr>"

definition pool_inv :: "pool_tasks \<Rightarrow> bool" where
  "pool_inv s \<longleftrightarrow>
     length (instances (the_pool s)) \<le> POOL_SIZE \<and>
     (\<not> initPromise (the_pool s) \<longrightarrow> instances (the_pool s) = [])"

text \<open>
  Five requests that arrive while the pool is being created. All five are suspended in
  \<^verbatim>\<open>await this.initialize()\<close>; when the promise resolves, their selection rounds run
  one after the other, and only then the continuations of \<^verbatim>\<open>acquire\<close>.
\<close>

definition five_requests :: "pool_action list" where
  "five_requests =
     [Initialize 0 (\<lambda>i. Some (10 + i)),
      GetInstance 1 5, GetInstance 2 5, GetInstance 3 5, GetInstance 4 5, GetInstance 5 5,
      AcquireResume 1 5, AcquireResume 2 5, AcquireResume 3 5, AcquireResume 4 5, AcquireResume 5 5]"

text \<open>
  Three environments of \<^verbatim>\<open>getInstance\<close>. In \<open>stale_env\<close> the only instance is idle and
  older than \<^verbatim>\<open>INSTANCE_MAX_AGE\<close>, and every refresh fails (the upstream is
  unreachable), so each round leaves the pool as it was. In \<open>recovering_env\<close> a refresh
  succeeds before the third round. In \<open>empty_env\<close> no instance could be created.
\<close>

definition stale_pool :: pool where
  "stale_pool = \<lparr>instances = [1], instanceStats = [1 \<mapsto> new_stats 0], initPromise = True\<rparr>"

definition stale_env :: "nat \<Rightarrow> int \<times> pool" where
  "stale_env k = (900000 + 100 * int k, stale_pool)"

definition recovering_env :: "nat \<Rightarrow> int \<times> pool" where
  "recovering_env k =
     (if k < 2 then stale_env k
      else (900200, \<lparr>instances = [2], instanceStats = [2 \<mapsto> new_stats 900150], initPromise = True\<rparr>))"

definition empty_env :: "nat \<Rightarrow> int \<times> pool" where
  "empty_env k = (100 * int k, pool_constructor\<lparr>initPromise := True\<rparr>)"

section \<open>Upstream payloads\<close>

text \<open>
  A payload is a graph of JavaScript values. Objects and arrays live in a store and are
  referred to by address, so that two references can be compared (a \<^verbatim>\<open>Set\<close> compares
  objects by identity) and a payload may contain a cycle. An object is the list of its own
  enumerable properties in the order of \<^verbatim>\<open>Object.keys\<close>. Strings are compared and
  measured as the source does for the ASCII identifiers and tokens of the upstream.
\<close>

datatype val =
  VUndefined | VNull | VBool bool | VNumber int | VString string | VFunction | VRef nat

datatype obj = Array "val list" | Object "(string \<times> val) list"

type_synonym store = "nat \<Rightarrow> obj"

fun truthy :: "val \<Rightarrow> bool" where
  "truthy VUndefined = False"
| "truthy VNull = False"
| "truthy (VBool b) = b"
| "truthy (VNumber n) = (n \<noteq> 0)"
| "truthy (VString s) = (s \<noteq> [])"
| "truthy VFunction = True"
| "truthy (VRef a) = True"

fun is_string :: "val \<Rightarrow> bool" where
  "is_string (VString s) = True"
| "is_string v = False"

fun str_length :: "val \<Rightarrow> nat" where
  "str_length (VString s) = length s"
| "str_length v = 0"

fun own_prop :: "obj \<Rightarrow> string \<Rightarrow> val" where
  "own_prop (Object kvs) k = (case map_of kvs k of None \<Rightarrow> VUndefined | Some v \<Rightarrow> v)"
| "own_prop (Array items) k = VUndefined"

text \<open>\<^verbatim>\<open>v.k\<close> and \<^verbatim>\<open>v?.k\<close> where \<open>v\<close> is known not to be null or undefined, or is guarded.\<close>

fun get_prop :: "store \<Rightarrow> val \<Rightarrow> string \<Rightarrow> val" where
  "get_prop st (VRef a) k = own_prop (st a) k"
| "get_prop st v k = VUndefined"

fun startsWith_underscore :: "string \<Rightarrow> bool" where
  "startsWith_underscore [] = False"
| "startsWith_underscore (c # cs) = (c = CHR ''_'')"

section \<open>findContinuationToken\<close>

text \<open>
  The repository has two copies of the walker. They differ in the checks a node makes on
  itself: the copy of the channel-video handler accepts \<^verbatim>\<open>obj.token\<close> (a string longer
  than 20), \<^verbatim>\<open>obj.continuation\<close> (any non-empty string) and
  \<^verbatim>\<open>obj.continuationCommand?.token\<close> (any truthy value); the copy inside
  \<^verbatim>\<open>getPlaylistsViaBrowse\<close> accepts \<^verbatim>\<open>obj.token\<close> and \<^verbatim>\<open>obj.continuation\<close>, both
  strings longer than 20. Each function below returns the token of the node, or
  \<^verbatim>\<open>null\<close>.
\<close>

definition self_token_videos :: "store \<Rightarrow> val \<Rightarrow> val" where
  "self_token_videos st obj =
     (if truthy (get_prop st obj ''token'') \<and> is_string (get_prop st obj ''token'')
          \<and> str_length (get_prop st obj ''token'') > 20
      then get_prop st obj ''token''
      else if truthy (get_prop st obj ''continuation'') \<and> is_string (get_prop st obj ''continuation'')
      then get_prop st obj ''continuation''
      else if truthy (get_prop st (get_prop st obj ''continuationCommand'') ''token'')
      then get_prop st (get_prop st obj ''continuationCommand'') ''token''
      else VNull)"

definition self_token_playlists :: "store \<Rightarrow> val \<Rightarrow> val" where
  "self_token_playlists st obj =
     (if truthy (get_prop st obj ''token'') \<and> is_string (get_prop st obj ''token'')
          \<and> str_length (get_prop st obj ''token'') > 20
      then get_prop st obj ''token''
      else if truthy (get_prop st obj ''continuation'') \<and> is_string (get_prop st obj ''continuation'')
          \<and> str_length (get_prop st obj ''continuation'') > 20
      then get_prop st obj ''continuation''
      else VNull)"

text \<open>
  The body of the walker, with the checks as a parameter. The first line of the source,
  \<^verbatim>\<open>!obj || typeof obj !== 'object' || depth > 15\<close>, lets only references to objects
  and arrays at depth 15 or less pass. \<open>walk_items\<close> is the \<^verbatim>\<open>for ... of obj\<close> loop
  and \<open>walk_keys\<close> the \<^verbatim>\<open>for ... of Object.keys(obj)\<close> loop; both receive the depth
  \<^verbatim>\<open>depth + 1\<close> of their recursive calls, and both stop at the first truthy token. The
  test \<^verbatim>\<open>typeof obj[key] === 'function'\<close> is in the first copy only; the second copy
  calls itself on a function, which returns \<^verbatim>\<open>null\<close> at once, so the result is the same.
  Termination rests on the depth alone, not on the payload being a tree.
\<close>

function walk :: "(store \<Rightarrow> val \<Rightarrow> val) \<Rightarrow> store \<Rightarrow> val \<Rightarrow> nat \<Rightarrow> val"
  and walk_items :: "(store \<Rightarrow> val \<Rightarrow> val) \<Rightarrow> store \<Rightarrow> val list \<Rightarrow> nat \<Rightarrow> val"
  and walk_keys :: "(store \<Rightarrow> val \<Rightarrow> val) \<Rightarrow> store \<Rightarrow> (string \<times> val) list \<Rightarrow> nat \<Rightarrow> val"
where
  "walk self st obj depth =
     (case obj of
        VRef a \<Rightarrow>
          if depth > 15 then VNull
          else if truthy (self st obj) then self st obj
          else (case st a of
                  Array items \<Rightarrow> walk_items self st items (depth + 1)
                | Object kvs \<Rightarrow> walk_keys self st kvs (depth + 1))
      | _ \<Rightarrow> VNull)"
| "walk_items self st [] d = VNull"
| "walk_items self st (item # rest) d =
     (let token = walk self st item d
      in if truthy token then token else walk_items self st rest d)"
| "walk_keys self st [] d = VNull"
| "walk_keys self st ((key, v) # rest) d =
     (if startsWith_underscore key \<or> v = VFunction then walk_keys self st rest d
      else (let token = walk self st v d
            in if truthy token then token else walk_keys self st rest d))"
  by pat_completeness auto
termination
  by (relation "inv_image (less_than <*lex*> less_than)
        (\<lambda>x. case x of
            Inl (self, st, obj, depth) \<Rightarrow> (2 * (17 - depth), 0)
          | Inr (Inl (self, st, items, d)) \<Rightarrow> (2 * (17 - d) + 1, length items)
          | Inr (Inr (self, st, kvs, d)) \<Rightarrow> (2 * (17 - d) + 1, length kvs))")
    auto

definition findContinuationToken :: "store \<Rightarrow> val \<Rightarrow> nat \<Rightarrow> val" where
  "findContinuationToken = walk self_token_videos"

definition findContinuationToken_playlists :: "store \<Rightarrow> val \<Rightarrow> nat \<Rightarrow> val" where
  "findContinuationToken_playlists = walk self_token_playlists"

text \<open>
  The order of visit in the words of the specification: the node itself, then the elements
  of an array in index order or the values of a mapping in key order without the keys that
  start with an underscore, each with its own descendants, and nothing deeper than 15.
\<close>

fun children :: "obj \<Rightarrow> val list" where
  "children (Array items) = items"
| "children (Object kvs) = map snd (filter (\<lambda>(key, v). \<not> startsWith_underscore key) kvs)"

function visit_order :: "store \<Rightarrow> val \<Rightarrow> nat \<Rightarrow> val list" where
  "visit_order st obj depth =
     (case obj of
        VRef a \<Rightarrow>
          if depth > 15 then []
          else obj # concat (map (\<lambda>child. visit_order st child (depth + 1)) (children (st a)))
      | _ \<Rightarrow> [])"
  by pat_completeness auto
termination
  by (relation "measure (\<lambda>(st, obj, depth). 16 - depth)") auto

fun first_token :: "val list \<Rightarrow> val" where
  "first_token [] = VNull"
| "first_token (t # ts) = (if truthy t then t else first_token ts)"

declare walk.simps [simp del] visit_order.simps [simp del]

text \<open>
  A payload with a cycle (object 0 contains itself, directly and through the array 2) and
  a private key, and one that is nothing but a cycle.
\<close>

definition cyclic_store :: store where
  "cyclic_store a =
     (if a = 0 then Object [(''_private'', VRef 1), (''items'', VRef 2), (''self'', VRef 0)]
      else if a = 1 then Object [(''token'', VString ''AAAAAAAAAAAAAAAAAAAAAAAAA'')]
      else if a = 2 then Array [VNumber 1, VRef 0, VRef 3, VRef 1]
      else if a = 3 then Object [(''continuation'', VString ''next'')]
      else Object [])"

definition loop_store :: store where
  "loop_store a = Object [(''self'', VRef a)]"

section \<open>Channel videos: extraction from a tab\<close>



text \<open>
  A formatted video. Its other fields (title, thumbnail, duration, views, published,
  description) are display strings computed from the same raw item; no decision of the
  cache depends on them.
\<close>

record video =
  vid :: string













section \<open>Channel videos: extraction from a browse response\<close>







section \<open>The channel-video cache\<close>

text \<open>
  An entry of \<^verbatim>\<open>channelCache\<close>, as \<^verbatim>\<open>initCache\<close> creates it. \<^verbatim>\<open>initCache\<close>
  returns the entry stored under the key if there is one, whatever its age.
\<close>

record channel_entry =
  videos :: "video list"
  seenIds :: "val set"
  isComplete :: bool
  isFetching :: bool
  lastUpdate :: int
  error :: "string option"

definition new_entry :: "int \<Rightarrow> channel_entry" where
  "new_entry now =
     \<lparr>videos = [], seenIds = {}, isComplete = False, isFetching = False,
      lastUpdate = now, error = None\<rparr>"

definition initCache ::
  "int \<Rightarrow> string \<Rightarrow> (string \<rightharpoonup> channel_entry) \<Rightarrow> channel_entry \<times> (string \<rightharpoonup> channel_entry)" where
  "initCache now channelId channelCache =
     (case channelCache channelId of
        None \<Rightarrow> (new_entry now, channelCache(channelId \<mapsto> new_entry now))
      | Some entry \<Rightarrow> (entry, channelCache))"





section \<open>Search results in the background\<close>

















section \<open>backgroundFetchVideos\<close>




















section \<open>FastCache\<close>

text \<open>
  The cache class of the search handler, instantiated with the three TTLs below.
  \<^verbatim>\<open>get\<close> deletes and misses an entry whose last \<^verbatim>\<open>set\<close> is more than \<^verbatim>\<open>ttl\<close>
  milliseconds ago; it reads nothing else, in particular not the set
  \<^verbatim>\<open>activeFetches\<close> of the running background fetches.
\<close>

definition SEARCH_CACHE_TTL :: int where
  "SEARCH_CACHE_TTL = 5 * 60 * 1000"

definition VIDEO_CACHE_TTL :: int where
  "VIDEO_CACHE_TTL = 30 * 60 * 1000"

definition COMMENT_CACHE_TTL :: int where
  "COMMENT_CACHE_TTL = 10 * 60 * 1000"

record 'd cache_slot =
  data :: 'd
  ts :: int

record 'd FastCache =
  cache :: "string \<rightharpoonup> 'd cache_slot"
  ttl :: int

definition FastCache_constructor :: "int \<Rightarrow> 'd FastCache" where
  "FastCache_constructor t = \<lparr>cache = Map.empty, ttl = t\<rparr>"

definition FastCache_get :: "int \<Rightarrow> string \<Rightarrow> 'd FastCache \<Rightarrow> 'd option \<times> 'd FastCache" where
  "FastCache_get now key c =
     (case cache c key of
        None \<Rightarrow> (None, c)
      | Some entry \<Rightarrow>
          if now - ts entry > ttl c then (None, c\<lparr>cache := (cache c)(key := None)\<rparr>)
          else (Some (data entry), c))"

definition FastCache_set :: "int \<Rightarrow> string \<Rightarrow> 'd \<Rightarrow> 'd FastCache \<Rightarrow> 'd FastCache" where
  "FastCache_set now key d c = c\<lparr>cache := (cache c)(key \<mapsto> \<lparr>data = d, ts = now\<rparr>)\<rparr>"

section \<open>Example inputs\<close>





definition stale_entry :: channel_entry where
  "stale_entry = (new_entry 0)\<lparr>videos := [\<lparr>vid = ''aaaaaaaaaaa''\<rparr>],
                                seenIds := {VString ''aaaaaaaaaaa''}\<rparr>"

section \<open>The semaphore invariant\<close>

lemma sem_inv_constructor: "sem_inv (sem_constructor m)"
  by (simp add: sem_inv_def sem_constructor_def)

lemma sem_inv_step: "sem_inv s \<Longrightarrow> sem_inv (sem_step c s)"
proof (cases c)
  case (Acquire w)
  assume "sem_inv s"
  then show ?thesis
    using Acquire by (auto simp: sem_inv_def sem_acquire_def)
next
  case Release
  assume "sem_inv s"
  then show ?thesis
    using Release by (auto simp: sem_inv_def sem_release_def split: list.splits)
qed

lemma sem_inv_fold: "sem_inv s \<Longrightarrow> sem_inv (fold sem_step calls s)"
  by (induction calls arbitrary: s) (simp_all add: sem_inv_step)

lemma sem_step_max: "maxConcurrent (sem_step c s) = maxConcurrent s"
  by (cases c) (auto simp: sem_acquire_def sem_release_def split: list.splits)

lemma sem_fold_max: "maxConcurrent (fold sem_step calls s) = maxConcurrent s"
  by (induction calls arbitrary: s) (simp_all add: sem_step_max)

text \<open>
  C3. In every state that a sequence of \<^verbatim>\<open>acquire\<close> and \<^verbatim>\<open>release\<close> calls, in any
  order, reaches from a freshly constructed semaphore of capacity \<open>m\<close>, the counter
  \<^verbatim>\<open>currentCount\<close> is at most \<open>m\<close>, and the waiting queue is non-empty only when the
  counter equals \<open>m\<close>.
\<close>

theorem semaphore_invariant:
  "currentCount (sem_run calls (sem_constructor m)) \<le> int m \<and>
   (waitingQueue (sem_run calls (sem_constructor m)) \<noteq> [] \<longrightarrow>
      currentCount (sem_run calls (sem_constructor m)) = int m)"
proof -
  have "sem_inv (sem_run calls (sem_constructor m))"
    unfolding sem_run_def by (rule sem_inv_fold [OF sem_inv_constructor])
  moreover have "maxConcurrent (sem_run calls (sem_constructor m)) = m"
    unfolding sem_run_def by (simp add: sem_fold_max sem_constructor_def)
  ultimately show ?thesis
    by (simp add: sem_inv_def)
qed

theorem semaphore_invariant_witness:
  "waitingQueue (sem_run [Acquire 1, Release, Acquire 2, Acquire 3, Acquire 4] (sem_constructor 2)) = [4] \<and>
   currentCount (sem_run [Acquire 1, Release, Acquire 2, Acquire 3, Acquire 4] (sem_constructor 2)) = 2"
  using semaphore_invariant [of "[Acquire 1, Release, Acquire 2, Acquire 3, Acquire 4]" 2]
  by (simp add: sem_run_def sem_acquire_def sem_release_def sem_constructor_def)

section \<open>Release never drives the active counter below zero\<close>

lemma release_other:
  "j \<noteq> i \<Longrightarrow> instanceStats (release j e p) i = instanceStats p i"
  by (simp add: release_def split: option.splits)

lemma release_same:
  "instanceStats p i = Some st \<Longrightarrow>
   instanceStats (release i e p) i =
     Some (st\<lparr>activeRequests := max 0 (activeRequests st - 1),
              requestCount := requestCount st + 1,
              errors := (if e then errors st + 1 else errors st)\<rparr>)"
  by (simp add: release_def)

lemma release_all_stats:
  "instanceStats p i = Some st \<Longrightarrow>
   \<exists>st'. instanceStats (fold (\<lambda>(j, e). release j e) calls p) i = Some st' \<and>
     activeRequests st' = (if [c\<leftarrow>calls. fst c = i] = [] then activeRequests st
        else max 0 (activeRequests st - int (length [c\<leftarrow>calls. fst c = i]))) \<and>
     requestCount st' = requestCount st + int (length [c\<leftarrow>calls. fst c = i]) \<and>
     errors st' = errors st + int (length [c\<leftarrow>calls. fst c = i \<and> snd c])"
proof (induction calls arbitrary: p st)
  case Nil
  then show ?case by simp
next
  case (Cons c calls)
  obtain j e where c: "c = (j, e)" by (cases c)
  show ?case
  proof (cases "j = i")
    case True
    let ?st1 = "st\<lparr>activeRequests := max 0 (activeRequests st - 1),
                    requestCount := requestCount st + 1,
                    errors := (if e then errors st + 1 else errors st)\<rparr>"
    have "instanceStats (release j e p) i = Some ?st1"
      using True Cons.prems by (simp add: release_same)
    from Cons.IH [OF this] obtain st' where
      st': "instanceStats (fold (\<lambda>(j, e). release j e) calls (release j e p)) i = Some st'"
        "activeRequests st' = (if [c\<leftarrow>calls. fst c = i] = [] then activeRequests ?st1
           else max 0 (activeRequests ?st1 - int (length [c\<leftarrow>calls. fst c = i])))"
        "requestCount st' = requestCount ?st1 + int (length [c\<leftarrow>calls. fst c = i])"
        "errors st' = errors ?st1 + int (length [c\<leftarrow>calls. fst c = i \<and> snd c])"
      by blast
    show ?thesis
      using st' True c by (intro exI [of _ st']) auto
  next
    case False
    have "instanceStats (release j e p) i = Some st"
      using False Cons.prems by (simp add: release_other)
    from Cons.IH [OF this] show ?thesis
      using False c by auto
  qed
qed

text \<open>
  C10. For an instance \<open>i\<close> of the pool whose active counter is not negative, and any
  sequence of \<^verbatim>\<open>release\<close> calls (on any instances, with any error flags): afterwards
  the counter of \<open>i\<close> is still not negative; it is the old value less the number of
  releases of \<open>i\<close>, clamped at zero; \<^verbatim>\<open>requestCount\<close> has grown by the number of
  releases of \<open>i\<close>, and \<^verbatim>\<open>errors\<close> by the number of those with \<^verbatim>\<open>hadError\<close> true.
\<close>

theorem release_never_negative:
  assumes "instanceStats p i = Some st" and "0 \<le> activeRequests st"
  shows "\<exists>st'. instanceStats (release_all calls p) i = Some st' \<and>
     0 \<le> activeRequests st' \<and>
     activeRequests st' = max 0 (activeRequests st - int (length [c\<leftarrow>calls. fst c = i])) \<and>
     requestCount st' = requestCount st + int (length [c\<leftarrow>calls. fst c = i]) \<and>
     errors st' = errors st + int (length [c\<leftarrow>calls. fst c = i \<and> snd c])"
proof -
  from release_all_stats [OF assms(1), of calls] obtain st' where
    st': "instanceStats (fold (\<lambda>(j, e). release j e) calls p) i = Some st'"
      "activeRequests st' = (if [c\<leftarrow>calls. fst c = i] = [] then activeRequests st
         else max 0 (activeRequests st - int (length [c\<leftarrow>calls. fst c = i])))"
      "requestCount st' = requestCount st + int (length [c\<leftarrow>calls. fst c = i])"
      "errors st' = errors st + int (length [c\<leftarrow>calls. fst c = i \<and> snd c])"
    by blast
  have "activeRequests st' = max 0 (activeRequests st - int (length [c\<leftarrow>calls. fst c = i]))"
    using st'(2) assms(2) by (auto simp: max_def)
  then show ?thesis
    using st' unfolding release_all_def by (intro exI [of _ st']) simp
qed

theorem release_never_negative_witness:
  "\<exists>st'. instanceStats (release_all [(7, True), (7, False), (3, True)]
       (pool_constructor\<lparr>instances := [7], instanceStats := [7 \<mapsto> new_stats 0\<lparr>activeRequests := 1\<rparr>]\<rparr>)) 7
       = Some st' \<and>
     activeRequests st' = 0 \<and> requestCount st' = 2 \<and> errors st' = 1"
  using release_never_negative [of
      "pool_constructor\<lparr>instances := [7], instanceStats := [7 \<mapsto> new_stats 0\<lparr>activeRequests := 1\<rparr>]\<rparr>"
      7 "new_stats 0\<lparr>activeRequests := 1\<rparr>" "[(7, True), (7, False), (3, True)]"]
  by (auto simp: new_stats_def)

section \<open>The retrying executor\<close>





lemma attempt_loop_no_semaphore:
  "attempt_loop retries acq operation a e = (trace, c) \<Longrightarrow>
   SemRelease \<notin> set trace \<and> SemAcquire \<notin> set trace"
proof (induction "retries + 1 - a" arbitrary: a e trace c)
  case 0
  then show ?case
    by (subst (asm) attempt_loop.simps) simp
next
  case (Suc n)
  have rec: "SemRelease \<notin> set tr \<and> SemAcquire \<notin> set tr"
    if "attempt_loop retries acq operation (Suc a) e' = (tr, c')" for e' tr c'
    using Suc.hyps(1) [of "Suc a" e' tr c'] Suc.hyps(2) that by simp
  from Suc.prems show ?case
    by (subst (asm) attempt_loop.simps)
      (auto split: if_splits acquired.splits sum.splits prod.splits dest: rec)
qed

text \<open>
  C2. Every invocation of \<^verbatim>\<open>executeWithInstance\<close> that
  ends, with a result or with an exception (that of a failed handle acquisition
  included), calls \<^verbatim>\<open>requestSemaphore.release()\<close> exactly once, as its last action,
  after every attempt.
\<close>

theorem semaphore_released_once:
  assumes "snd (executeWithInstance operation opts slot acq) \<noteq> Pending"
  shows "\<exists>trace. fst (executeWithInstance operation opts slot acq) = SemAcquire # trace @ [SemRelease] \<and>
     SemRelease \<notin> set trace \<and> SemAcquire \<notin> set trace \<and>
     count_list (fst (executeWithInstance operation opts slot acq)) SemRelease = 1"
proof -
  have slot: slot
    using assms by (cases slot) (simp_all add: executeWithInstance_def)
  obtain trace c where l: "attempt_loop (option_retries opts) acq operation 0 Undefined = (trace, c)"
    by (cases "attempt_loop (option_retries opts) acq operation 0 Undefined")
  have c: "c \<noteq> Pending"
    using assms l slot by (auto simp: executeWithInstance_def split: completion.splits)
  have no: "SemRelease \<notin> set trace" "SemAcquire \<notin> set trace"
    using attempt_loop_no_semaphore [OF l] by simp_all
  have "fst (executeWithInstance operation opts slot acq) = SemAcquire # trace @ [SemRelease]"
    using l c slot by (simp add: executeWithInstance_def split: completion.splits)
  moreover have "count_list (SemAcquire # trace @ [SemRelease]) SemRelease = 1"
    using no by (simp add: count_list_0_iff)
  ultimately show ?thesis
    using no by simp
qed

theorem semaphore_released_once_witness:
  "snd (executeWithInstance (\<lambda>k i. Fulfils (0::nat)) \<lparr>opt_retries = None, opt_timeout = None\<rparr> True
         (\<lambda>k. AcquireThrows (Error ''No YouTube instances available''))) \<noteq> Pending \<and>
   fst (executeWithInstance (\<lambda>k i. Fulfils (0::nat)) \<lparr>opt_retries = None, opt_timeout = None\<rparr> True
         (\<lambda>k. AcquireThrows (Error ''No YouTube instances available''))) = [SemAcquire, SemRelease]"
  using semaphore_released_once [of "\<lambda>k i. Fulfils (0::nat)" "\<lparr>opt_retries = None, opt_timeout = None\<rparr>"
      True "\<lambda>k. AcquireThrows (Error ''No YouTube instances available'')"]
  by (simp add: executeWithInstance_def attempt_loop.simps)

section \<open>The poll of getInstance\<close>

lemma getInstance_empty:
  "instances (snd (env k)) = [] \<Longrightarrow>
   getInstance env k = Some (Inl (Error ''No YouTube instances available''))"
  by (subst getInstance.simps) simp

lemma getInstance_found:
  "instances (snd (env k)) \<noteq> [] \<Longrightarrow>
   bestInstance (select_instance (fst (env k)) (snd (env k))) = Some i \<Longrightarrow>
   getInstance env k = Some (Inr i)"
  by (subst getInstance.simps) simp

lemma getInstance_skip:
  "no_candidate env k \<Longrightarrow> getInstance env k = getInstance env (k + 1)"
  by (subst getInstance.simps) (simp add: no_candidate_def)

lemma getInstance_after_polls:
  "(\<forall>j<n. no_candidate env (k + j)) \<Longrightarrow> getInstance env k = getInstance env (k + n)"
proof (induction n arbitrary: k)
  case 0
  then show ?case by simp
next
  case (Suc n)
  have "no_candidate env k" using Suc.prems by (metis add.right_neutral zero_less_Suc)
  then have "getInstance env k = getInstance env (k + 1)" by (rule getInstance_skip)
  also have "\<dots> = getInstance env (k + 1 + n)"
  proof (rule Suc.IH)
    show "\<forall>j<n. no_candidate env (k + 1 + j)"
      using Suc.prems by (metis Suc_eq_plus1 add_Suc_shift Suc_less_eq)
  qed
  finally show ?case by simp
qed

lemma getInstance_Some_candidate:
  "getInstance env k = Some y \<Longrightarrow> \<exists>j\<ge>k. \<not> no_candidate env j"
proof (erule getInstance.raw_induct [rotated], goal_cases)
  case (1 f env k y)
  note IH = 1(1) and body = 1(2)
  show ?case
  proof (cases "no_candidate env k")
    case False
    then show ?thesis by blast
  next
    case True
    with body have "f env (k + 1) = Some y"
      by (simp add: no_candidate_def)
    then have "\<exists>j\<ge>k + 1. \<not> no_candidate env j" by (rule IH)
    then obtain j where "j \<ge> k + 1" "\<not> no_candidate env j" by blast
    then show ?thesis by (intro exI [of _ j]) simp
  qed
qed

lemma getInstance_never:
  "(\<forall>j\<ge>k. no_candidate env j) \<Longrightarrow> getInstance env k = None"
  using getInstance_Some_candidate [of env k] by (cases "getInstance env k") auto

lemma stale_no_candidate: "no_candidate stale_env j"
  by (simp add: no_candidate_def stale_env_def stale_pool_def select_instance_def select_step_def
      new_stats_def needsRefresh_def MAX_REQUESTS_PER_INSTANCE_def INSTANCE_MAX_REQUESTS_def
      INSTANCE_MAX_AGE_def)

text \<open>
  C5, as the code has it. On an empty pool \<^verbatim>\<open>getInstance\<close> (and with it
  \<^verbatim>\<open>acquire\<close>) throws \<^verbatim>\<open>No YouTube instances available\<close> in the round that sees
  it, without a retry or a delay. When instances exist and none is selected, it polls
  again after 100 ms, with no bound on the number of polls: it returns the instance
  selected in the first round that selects one, after any number \<open>n\<close> of fruitless
  rounds, and it never returns if no round selects one.
\<close>

theorem getInstance_polls_without_bound:
  "(instances (snd (env k)) = [] \<longrightarrow>
      getInstance env k = Some (Inl (Error ''No YouTube instances available''))) \<and>
   ((\<forall>j<n. no_candidate env (k + j)) \<and> instances (snd (env (k + n))) \<noteq> [] \<and>
      bestInstance (select_instance (fst (env (k + n))) (snd (env (k + n)))) = Some i \<longrightarrow>
      getInstance env k = Some (Inr i)) \<and>
   ((\<forall>j\<ge>k. no_candidate env j) \<longrightarrow> getInstance env k = None)"
  using getInstance_empty [of env k] getInstance_after_polls [of n env k]
    getInstance_found [of env "k + n" i] getInstance_never [of k env]
  by simp

theorem getInstance_polls_without_bound_witness:
  "getInstance empty_env 0 = Some (Inl (Error ''No YouTube instances available'')) \<and>
   getInstance recovering_env 0 = Some (Inr 2) \<and>
   getInstance stale_env 0 = None"
proof -
  have a: "instances (snd (empty_env 0)) = []"
    by (simp add: empty_env_def pool_constructor_def)
  have b: "\<forall>j<2. no_candidate recovering_env (0 + j)"
    using stale_no_candidate by (simp add: recovering_env_def no_candidate_def)
  have c: "instances (snd (recovering_env (0 + 2))) \<noteq> []"
    by (simp add: recovering_env_def)
  have d: "bestInstance (select_instance (fst (recovering_env (0 + 2)))
             (snd (recovering_env (0 + 2)))) = Some 2"
    by (simp add: recovering_env_def select_instance_def select_step_def
      new_stats_def needsRefresh_def MAX_REQUESTS_PER_INSTANCE_def INSTANCE_MAX_REQUESTS_def
      INSTANCE_MAX_AGE_def)
  have e: "\<forall>j\<ge>0. no_candidate stale_env j"
    using stale_no_candidate by simp
  show ?thesis
    using getInstance_polls_without_bound [of empty_env 0 0 0]
      getInstance_polls_without_bound [of recovering_env 0 2 2]
      getInstance_polls_without_bound [of stale_env 0 0 0] a b c d e
    by blast
qed

text \<open>
  The claim as the specification states it fails: here instances exist, no round ever
  selects one, and the call never returns.
\<close>

theorem unbounded_poll_counterexample:
  "instances (snd (stale_env 0)) \<noteq> [] \<and>
   bestInstance (select_instance (fst (stale_env 0)) (snd (stale_env 0))) = None \<and>
   getInstance stale_env 0 = None"
  using getInstance_never [of 0 stale_env] stale_no_candidate [of 0] stale_no_candidate
  by (simp add: no_candidate_def)

section \<open>Pool size and the cap per instance\<close>

lemma select_step_below_cap:
  assumes "\<And>i. bestInstance sel = Some i \<Longrightarrow>
             \<exists>st. statsMap i = Some st \<and> activeRequests st < MAX_REQUESTS_PER_INSTANCE"
    and "bestInstance (select_step now statsMap x sel) = Some i"
  shows "\<exists>st. statsMap i = Some st \<and> activeRequests st < MAX_REQUESTS_PER_INSTANCE"
  using assms by (auto simp: select_step_def split: option.splits if_splits)

lemma select_fold_below_cap:
  "(\<And>i. bestInstance sel = Some i \<Longrightarrow>
      \<exists>st. statsMap i = Some st \<and> activeRequests st < MAX_REQUESTS_PER_INSTANCE) \<Longrightarrow>
   bestInstance (fold (select_step now statsMap) xs sel) = Some i \<Longrightarrow>
   \<exists>st. statsMap i = Some st \<and> activeRequests st < MAX_REQUESTS_PER_INSTANCE"
proof (induction xs arbitrary: sel)
  case Nil
  then show ?case by simp
next
  case (Cons x xs)
  show ?case
  proof (rule Cons.IH [of "select_step now statsMap x sel"])
    fix j assume "bestInstance (select_step now statsMap x sel) = Some j"
    then show "\<exists>st. statsMap j = Some st \<and> activeRequests st < MAX_REQUESTS_PER_INSTANCE"
      using Cons.prems(1) select_step_below_cap by blast
  next
    show "bestInstance (fold (select_step now statsMap) xs (select_step now statsMap x sel)) = Some i"
      using Cons.prems(2) by simp
  qed
qed

lemma selected_below_cap:
  "bestInstance (select_instance now p) = Some i \<Longrightarrow>
   \<exists>st. instanceStats p i = Some st \<and> activeRequests st < MAX_REQUESTS_PER_INSTANCE"
  unfolding select_instance_def by (rule select_fold_below_cap) simp_all

text \<open>
  When nothing runs between a selection and the increment that belongs to it, the guard
  of the selection loop keeps the counter within the cap.
\<close>

lemma uninterrupted_acquire_keeps_cap:
  assumes "bestInstance (select_instance now p) = Some i"
  shows "\<exists>st. instanceStats (acquire_resume now' i p) i = Some st \<and>
     activeRequests st \<le> MAX_REQUESTS_PER_INSTANCE"
  using selected_below_cap [OF assms] by (auto simp: acquire_resume_def)

lemma length_map_filter_le: "length (List.map_filter f xs) \<le> length xs"
  by (simp add: List.map_filter_def)

lemma pool_inv_step: "pool_inv s \<Longrightarrow> pool_inv (pool_step a s)"
proof (cases a)
  case (Initialize now created)
  assume "pool_inv s"
  moreover have "length (List.map_filter created [0..<POOL_SIZE]) \<le> POOL_SIZE"
    using length_map_filter_le [of created "[0..<POOL_SIZE]"] by simp
  ultimately show ?thesis
    using Initialize by (auto simp: pool_inv_def initialize_def Let_def)
next
  case (GetInstance task now)
  assume "pool_inv s"
  then show ?thesis
    using GetInstance by (auto simp: pool_inv_def Let_def)
next
  case (AcquireResume task now)
  assume "pool_inv s"
  then show ?thesis
    using AcquireResume by (auto simp: pool_inv_def acquire_resume_def split: option.splits)
next
  case (ReleaseCall i e)
  assume "pool_inv s"
  then show ?thesis
    using ReleaseCall by (auto simp: pool_inv_def release_def split: option.splits)
next
  case (RefreshCreated k newInst now)
  assume "pool_inv s"
  then show ?thesis
    using RefreshCreated by (auto simp: pool_inv_def refresh_finish_def split: prod.splits)
next
  case (RefreshFailed k)
  assume "pool_inv s"
  then show ?thesis
    using RefreshFailed by (auto simp: pool_inv_def)
qed

text \<open>The first half of C4 holds in every interleaving: the array never outgrows the pool size.\<close>

lemma pool_size_bounded:
  "length (instances (the_pool (pool_run actions pool_start))) \<le> POOL_SIZE"
proof -
  have "pool_inv s \<Longrightarrow> pool_inv (fold pool_step actions s)" for s
    by (induction actions arbitrary: s) (simp_all add: pool_inv_step)
  moreover have "pool_inv pool_start"
    by (simp add: pool_inv_def pool_start_def pool_constructor_def)
  ultimately show ?thesis
    by (simp add: pool_run_def pool_inv_def)
qed

text \<open>
  C4, second half, at the interleaving \<open>five_requests\<close>: the five selection rounds all
  see the first instance idle and choose it, the five increments follow, and its
  \<^verbatim>\<open>activeRequests\<close> is 5, above \<^verbatim>\<open>MAX_REQUESTS_PER_INSTANCE\<close>.
\<close>

theorem per_instance_cap_race:
  "instances (the_pool (pool_run five_requests pool_start)) = [10, 11, 12, 13, 14] \<and>
   map_option activeRequests (instanceStats (the_pool (pool_run five_requests pool_start)) 10) = Some 5 \<and>
   MAX_REQUESTS_PER_INSTANCE < 5"
  by code_simp

section \<open>The continuation walker\<close>

lemma first_token_append:
  "first_token (xs @ ys) = (if truthy (first_token xs) then first_token xs else first_token ys)"
  by (induction xs) auto

lemma visit_order_not_ref: "(\<And>a. v \<noteq> VRef a) \<Longrightarrow> visit_order st v d = []"
  by (subst visit_order.simps) (cases v; auto)

lemma visit_order_ref:
  "visit_order st (VRef a) depth =
     (if depth > 15 then []
      else VRef a # concat (map (\<lambda>child. visit_order st child (depth + 1)) (children (st a))))"
  by (simp add: visit_order.simps)

lemma walk_ref:
  "walk self st (VRef a) depth =
     (if depth > 15 then VNull
      else if truthy (self st (VRef a)) then self st (VRef a)
      else (case st a of
              Array items \<Rightarrow> walk_items self st items (depth + 1)
            | Object kvs \<Rightarrow> walk_keys self st kvs (depth + 1)))"
  by (simp add: walk.simps)

lemma walk_not_ref: "(\<And>a. v \<noteq> VRef a) \<Longrightarrow> walk self st v d = VNull"
  by (subst walk.simps) (cases v; auto)

lemma walk_too_deep: "walk self st obj (16 + n) = VNull"
  by (subst walk.simps) (simp split: val.splits)

lemma walk_refines_visit_order:
  "walk self st obj depth = first_token (map (self st) (visit_order st obj depth))"
  "walk_items self st items d =
     first_token (map (self st) (concat (map (\<lambda>child. visit_order st child d) items)))"
  "walk_keys self st kvs d =
     first_token (map (self st) (concat (map (\<lambda>child. visit_order st child d)
        (map snd (filter (\<lambda>(key, v). \<not> startsWith_underscore key) kvs)))))"
proof (induction self st obj depth and self st items d and self st kvs d
    rule: walk_walk_items_walk_keys.induct)
  case (1 self st obj depth)
  show ?case
  proof (cases "\<exists>a. obj = VRef a")
    case False
    then show ?thesis
      by (simp add: walk_not_ref visit_order_not_ref)
  next
    case True
    then obtain a where a: "obj = VRef a" by blast
    show ?thesis
    proof (cases "st a")
      case (Array items)
      then show ?thesis
        using "1.IH"(1) [OF a _ _ Array] by (simp add: a walk_ref visit_order_ref)
    next
      case (Object kvs)
      then show ?thesis
        using "1.IH"(2) [OF a _ _ Object] by (simp add: a walk_ref visit_order_ref)
    qed
  qed
next
  case (2 self st d)
  show ?case by simp
next
  case (3 self st item rest d)
  then show ?case
    by (simp add: first_token_append Let_def)
next
  case (4 self st d)
  show ?case by simp
next
  case (5 self st key v rest d)
  show ?case
  proof (cases "startsWith_underscore key")
    case True
    then show ?thesis using 5 by simp
  next
    case nu: False
    show ?thesis
    proof (cases "v = VFunction")
      case True
      then show ?thesis
        using 5 nu by (simp add: visit_order_not_ref)
    next
      case False
      then show ?thesis
        using 5 nu by (simp add: first_token_append Let_def)
    qed
  qed
qed

text \<open>
  C8. Both copies of the walker are total functions of a store that may contain cycles
  (the recursion is bounded by the depth), return \<^verbatim>\<open>null\<close> for every node at a depth
  above 15, and otherwise return the token of the first node, in the order
  \<open>visit_order\<close> (the node itself, then array elements in index order or mapping values
  in key order, keys with a leading underscore left out), whose check on itself succeeds.
\<close>

theorem continuation_walker_order:
  "findContinuationToken st obj (16 + n) = VNull \<and>
   findContinuationToken_playlists st obj (16 + n) = VNull \<and>
   findContinuationToken st obj depth =
     first_token (map (self_token_videos st) (visit_order st obj depth)) \<and>
   findContinuationToken_playlists st obj depth =
     first_token (map (self_token_playlists st) (visit_order st obj depth))"
  unfolding findContinuationToken_def findContinuationToken_playlists_def
  using walk_too_deep [of self_token_videos st obj n] walk_too_deep [of self_token_playlists st obj n]
    walk_refines_visit_order(1) [of self_token_videos st obj depth]
    walk_refines_visit_order(1) [of self_token_playlists st obj depth]
  by simp

theorem continuation_walker_order_witness:
  "findContinuationToken cyclic_store (VRef 0) 0 = VString ''next'' \<and>
   first_token (map (self_token_videos cyclic_store) (visit_order cyclic_store (VRef 0) 0)) = VString ''next'' \<and>
   findContinuationToken_playlists cyclic_store (VRef 0) 0 = VString ''AAAAAAAAAAAAAAAAAAAAAAAAA'' \<and>
   findContinuationToken loop_store (VRef 0) 0 = VNull"
proof -
  have "findContinuationToken cyclic_store (VRef 0) 0 = VString ''next''"
    by code_simp
  moreover have "findContinuationToken_playlists cyclic_store (VRef 0) 0 = VString ''AAAAAAAAAAAAAAAAAAAAAAAAA''"
    by code_simp
  moreover have "findContinuationToken loop_store (VRef 0) 0 = VNull"
    by code_simp
  ultimately show ?thesis
    using continuation_walker_order [of cyclic_store "VRef 0" 0 0] by simp
qed

section \<open>No duplicate identifiers in a cache entry\<close>

























section \<open>The fetch loops\<close>

































section \<open>Expiry of cache entries\<close>

text \<open>
  C9, as the code has it. A \<^verbatim>\<open>FastCache\<close> lookup more than \<^verbatim>\<open>ttl\<close> milliseconds after
  the last \<^verbatim>\<open>set\<close> of the key misses and evicts the entry, whether or not a fetch for it
  is running; a lookup up to \<^verbatim>\<open>ttl\<close> milliseconds after it returns the data; \<^verbatim>\<open>set\<close>
  restarts the clock. An entry of the channel-video cache has no expiry: \<^verbatim>\<open>initCache\<close>
  returns it at any time.
\<close>

theorem cache_expiry:
  "(cache fc key = Some slot \<and> now - ts slot > ttl fc \<longrightarrow>
      FastCache_get now key fc = (None, fc\<lparr>cache := (cache fc)(key := None)\<rparr>)) \<and>
   (cache fc key = Some slot \<and> now - ts slot \<le> ttl fc \<longrightarrow>
      FastCache_get now key fc = (Some (data slot), fc)) \<and>
   cache (FastCache_set now key d fc) key = Some \<lparr>data = d, ts = now\<rparr> \<and>
   (channelCache channelId = Some e \<longrightarrow> initCache now channelId channelCache = (e, channelCache))"
  by (simp add: FastCache_get_def FastCache_set_def initCache_def)

theorem cache_expiry_witness:
  "FastCache_get 7200000 ''s|cats'' (FastCache_set 0 ''s|cats'' (5::nat) (FastCache_constructor SEARCH_CACHE_TTL))
     = (None, FastCache_constructor SEARCH_CACHE_TTL) \<and>
   FastCache_get 300000 ''s|cats'' (FastCache_set 0 ''s|cats'' (5::nat) (FastCache_constructor SEARCH_CACHE_TTL))
     = (Some 5, FastCache_set 0 ''s|cats'' 5 (FastCache_constructor SEARCH_CACHE_TTL)) \<and>
   initCache 7200000 ''UC1'' [''UC1'' \<mapsto> stale_entry] = (stale_entry, [''UC1'' \<mapsto> stale_entry])"
  using cache_expiry [where fc = "FastCache_set 0 ''s|cats'' (5::nat) (FastCache_constructor SEARCH_CACHE_TTL)"
      and key = "''s|cats''" and slot = "\<lparr>data = 5, ts = 0\<rparr>" and now = 7200000
      and channelCache = "[''UC1'' \<mapsto> stale_entry]" and channelId = "''UC1''" and e = stale_entry]
    cache_expiry [where fc = "FastCache_set 0 ''s|cats'' (5::nat) (FastCache_constructor SEARCH_CACHE_TTL)"
      and key = "''s|cats''" and slot = "\<lparr>data = 5, ts = 0\<rparr>" and now = 300000
      and channelCache = "[''UC1'' \<mapsto> stale_entry]" and channelId = "''UC1''" and e = stale_entry]
  by (simp add: FastCache_set_def FastCache_constructor_def SEARCH_CACHE_TTL_def)

text \<open>
  The claim as the specification states it fails on the channel-video cache: two hours
  after its last update, with no fetch running, the entry is still returned.
\<close>

theorem channel_entry_never_expires_counterexample:
  "\<not> isFetching stale_entry \<and> 7200000 - lastUpdate stale_entry > VIDEO_CACHE_TTL \<and>
   fst (initCache 7200000 ''UC1'' [''UC1'' \<mapsto> stale_entry]) = stale_entry"
  by (simp add: initCache_def stale_entry_def new_entry_def VIDEO_CACHE_TTL_def)

end
